theory Spec2Isabelle
  imports Complex_Main
begin

section \<open>Arrays\<close>

text \<open>
  The collection class \<^verbatim>\<open>Images\<close> of \<^verbatim>\<open>thunder/images/images.py\<close> wraps an
  array whose axis 0 enumerates the images. An array is modelled as numpy keeps it: a
  shape and a buffer in row-major order. Python exceptions are values of \<open>error\<close>;
  every operation that can raise returns \<open>error + 'a\<close> with \<open>Inl\<close> the exception.
\<close>

datatype error = ValueError | IndexError | KeyError | AxisError | TypeError | Exception

record 'a ndarray =
  shape :: "nat list"
  data :: "'a list"

definition wf_array :: "'a ndarray \<Rightarrow> bool" where
  "wf_array a = (length (data a) = prod_list (shape a))"

text \<open>\<^verbatim>\<open>a[i]\<close> for an in-range \<open>i\<close>: the \<open>i\<close>-th sub-array along axis 0.\<close>

definition element :: "'a ndarray \<Rightarrow> nat \<Rightarrow> 'a ndarray" where
  "element a i =
     (let p = prod_list (tl (shape a))
      in \<lparr>shape = tl (shape a), data = take p (drop (i * p) (data a))\<rparr>)"

text \<open>
  The item of an array at a full index: in row-major order the index \<open>i # is\<close> of the
  shape \<open>d # ds\<close> lies \<open>i\<close> blocks of \<open>prod ds\<close> items into the buffer.
\<close>

fun ravel :: "nat list \<Rightarrow> nat list \<Rightarrow> nat" where
  "ravel (d # ds) (i # is) = i * prod_list ds + ravel ds is"
| "ravel _ _ = 0"

definition item :: "'a ndarray \<Rightarrow> nat list \<Rightarrow> 'a" where
  "item a idx = data a ! ravel (shape a) idx"

text \<open>A list with its position \<open>k\<close> removed.\<close>

definition without :: "nat \<Rightarrow> 'a list \<Rightarrow> 'a list" where
  "without k xs = take k xs @ drop (Suc k) xs"

text \<open>Iterating an array yields its sub-arrays along axis 0.\<close>

definition elements :: "'a ndarray \<Rightarrow> 'a ndarray list" where
  "elements a = (case shape a of [] \<Rightarrow> [] | n # ds \<Rightarrow> map (element a) [0..<n])"

text \<open>The values met along axis 0 at the flat position \<open>p\<close> of an image.\<close>

definition column :: "'a ndarray \<Rightarrow> nat \<Rightarrow> 'a list" where
  "column a p =
     (case shape a of [] \<Rightarrow> []
      | n # ds \<Rightarrow> map (\<lambda>i. data a ! (i * prod_list ds + p)) [0..<n])"

text \<open>
  A numpy reduction \<^verbatim>\<open>a.f(axis=0, keepdims=True)\<close>: axis 0 is reduced to extent 1
  and kept. A 0-d array has no axis 0.
\<close>

definition reduce0_keepdims :: "('a list \<Rightarrow> 'b) \<Rightarrow> 'a ndarray \<Rightarrow> error + 'b ndarray" where
  "reduce0_keepdims f a =
     (case shape a of
        [] \<Rightarrow> Inl AxisError
      | n # ds \<Rightarrow> Inr \<lparr>shape = 1 # ds, data = map (\<lambda>p. f (column a p)) [0..<prod_list ds]\<rparr>)"

text \<open>
  \<^verbatim>\<open>max\<close> and \<^verbatim>\<open>min\<close> have no identity: numpy raises ValueError when the reduced
  axis is empty.
\<close>

definition reduce0_noident :: "('a list \<Rightarrow> 'b) \<Rightarrow> 'a ndarray \<Rightarrow> error + 'b ndarray" where
  "reduce0_noident f a =
     (case shape a of
        [] \<Rightarrow> Inl AxisError
      | n # ds \<Rightarrow> if n = 0 then Inl ValueError else reduce0_keepdims f a)"

text \<open>
  The floating-point statistics of numpy, idealised over the reals (ddof = 0). On an
  empty list numpy yields nan, which the reals do not have: the values are meant for
  non-empty lists. \<open>max_of\<close> and \<open>min_of\<close> are applied to non-empty lists only, the
  reductions below reject an empty reduction axis first.
\<close>

definition mean_of :: "real list \<Rightarrow> real" where
  "mean_of xs = sum_list xs / real (length xs)"

definition var_of :: "real list \<Rightarrow> real" where
  "var_of xs = (let m = mean_of xs in sum_list (map (\<lambda>x. (x - m)\<^sup>2) xs) / real (length xs))"

definition std_of :: "real list \<Rightarrow> real" where
  "std_of xs = sqrt (var_of xs)"

definition max_of :: "'a::linorder list \<Rightarrow> 'a" where
  "max_of xs = fold max (tl xs) (hd xs)"

definition min_of :: "'a::linorder list \<Rightarrow> 'a" where
  "min_of xs = fold min (tl xs) (hd xs)"

section \<open>The collection\<close>

datatype mode = Local | Spark

text \<open>
  An \<^verbatim>\<open>Images\<close> object holds its backing array and its mode. In both modes the
  backing array is modelled by its logical content (for the distributed mode: the array
  that the partitioned records make up).
\<close>

record 'a images =
  values_of :: "'a ndarray"
  mode_of :: mode

text \<open>
  \<^verbatim>\<open>Images.__init__(self, values, mode='local')\<close> hands both arguments to the base
  class. Modelled from the spec: the base class \<^verbatim>\<open>Data\<close> is not among the sources;
  per the data model it keeps the backing store and the mode it is given.
\<close>

definition Images :: "'a ndarray \<Rightarrow> mode \<Rightarrow> 'a images" where
  "Images v m = \<lparr>values_of = v, mode_of = m\<rparr>"

text \<open>\<^verbatim>\<open>self._constructor(x)\<close> is \<^verbatim>\<open>Images(x)\<close>: the mode takes its default.\<close>

definition constructor :: "'a ndarray \<Rightarrow> 'a images" where
  "constructor v = Images v Local"

text \<open>\<^verbatim>\<open>self.shape\<close> is the shape of the backing array, \<^verbatim>\<open>dims\<close> is \<^verbatim>\<open>self.shape[1:]\<close>.\<close>

definition shape_of :: "'a images \<Rightarrow> nat list" where
  "shape_of c = shape (values_of c)"

definition dims :: "'a images \<Rightarrow> nat list" where
  "dims c = tl (shape_of c)"

text \<open>
  \<^verbatim>\<open>count\<close>: \<^verbatim>\<open>self.shape[0]\<close> in local mode; in distributed mode the number of
  records of the partitioned collection, one per index of axis 0.
\<close>

definition count :: "'a images \<Rightarrow> error + nat" where
  "count c = (case shape_of c of [] \<Rightarrow> Inl IndexError | n # ds \<Rightarrow> Inr n)"

subsection \<open>Aggregates across images\<close>

definition wrap :: "error + 'a ndarray \<Rightarrow> error + 'a images" where
  "wrap r = (case r of Inl e \<Rightarrow> Inl e | Inr v \<Rightarrow> Inr (constructor v))"

definition mean :: "real images \<Rightarrow> error + real images" where
  "mean c = wrap (reduce0_keepdims mean_of (values_of c))"

definition var :: "real images \<Rightarrow> error + real images" where
  "var c = wrap (reduce0_keepdims var_of (values_of c))"

definition std :: "real images \<Rightarrow> error + real images" where
  "std c = wrap (reduce0_keepdims std_of (values_of c))"

definition sum_images :: "'a::monoid_add images \<Rightarrow> error + 'a images" where
  "sum_images c = wrap (reduce0_keepdims sum_list (values_of c))"

definition max_images :: "'a::linorder images \<Rightarrow> error + 'a images" where
  "max_images c = wrap (reduce0_noident max_of (values_of c))"

definition min_images :: "'a::linorder images \<Rightarrow> error + 'a images" where
  "min_images c = wrap (reduce0_noident min_of (values_of c))"

subsection \<open>Mapping a function over the images\<close>

text \<open>A Python loop that applies a function to every item stops at the first exception.\<close>

fun mapM :: "('a \<Rightarrow> error + 'b) \<Rightarrow> 'a list \<Rightarrow> error + 'b list" where
  "mapM f [] = Inr []"
| "mapM f (x # xs) =
     (case f x of
        Inl e \<Rightarrow> Inl e
      | Inr y \<Rightarrow> (case mapM f xs of Inl e \<Rightarrow> Inl e | Inr ys \<Rightarrow> Inr (y # ys)))"

text \<open>
  \<^verbatim>\<open>Images.map(func, dims)\<close> is \<^verbatim>\<open>self._map(func, axis=0, value_shape=dims)\<close>.
  Modelled from the spec: \<^verbatim>\<open>_map\<close> belongs to the base class \<^verbatim>\<open>Data\<close>, which is
  not among the sources. Per the spec it applies \<open>func\<close> to each element independently
  and wraps the results in a collection of the same mode; the per-element shape of the
  result is the declared \<open>dims\<close> when one is given and is otherwise inferred by probing
  a transformed element. With no element to probe, the access to the first element
  fails as \<^verbatim>\<open>first()\<close> does on an empty collection.
\<close>

definition map_images ::
  "('a ndarray \<Rightarrow> error + 'b ndarray) \<Rightarrow> nat list option \<Rightarrow> 'a images \<Rightarrow> error + 'b images" where
  "map_images func dims_arg c =
     (case shape_of c of
        [] \<Rightarrow> Inl TypeError
      | n # ds \<Rightarrow>
          (case mapM func (elements (values_of c)) of
             Inl e \<Rightarrow> Inl e
           | Inr ys \<Rightarrow>
               (case dims_arg of
                  Some d \<Rightarrow> Inr (Images \<lparr>shape = n # d, data = concat (map data ys)\<rparr> (mode_of c))
                | None \<Rightarrow>
                    (case ys of
                       [] \<Rightarrow> Inl IndexError
                     | y # _ \<Rightarrow>
                         Inr (Images \<lparr>shape = n # shape y, data = concat (map data ys)\<rparr>
                                (mode_of c))))))"

subsection \<open>squeeze\<close>

text \<open>
  \<^verbatim>\<open>x.squeeze(axis)\<close> of numpy. With \<^verbatim>\<open>axis=None\<close> every axis of extent 1 is
  removed. With a tuple of axes exactly those are removed; an axis out of range is an
  AxisError and a selected axis whose extent is not 1 a ValueError. The buffer is kept.
\<close>

definition np_squeeze :: "nat list option \<Rightarrow> 'a ndarray \<Rightarrow> error + 'a ndarray" where
  "np_squeeze axis x =
     (case axis of
        None \<Rightarrow> Inr (x\<lparr>shape := filter (\<lambda>d. d \<noteq> 1) (shape x)\<rparr>)
      | Some ax \<Rightarrow>
          if list_ex (\<lambda>k. length (shape x) \<le> k) ax then Inl AxisError
          else if list_ex (\<lambda>k. shape x ! k \<noteq> 1) ax then Inl ValueError
          else Inr (x\<lparr>shape := map (\<lambda>k. shape x ! k)
                                  (filter (\<lambda>k. k \<notin> set ax) [0..<length (shape x)])\<rparr>))"

text \<open>
  \<^verbatim>\<open>axis = tuple(range(1, len(self.shape) - 1)) if prod(self.shape[1:]) == 1 else None\<close>,
  then \<^verbatim>\<open>self.map(lambda x: x.squeeze(axis=axis))\<close>.
\<close>

definition squeeze :: "'a images \<Rightarrow> error + 'a images" where
  "squeeze c =
     (let axis = (if prod_list (tl (shape_of c)) = 1
                  then Some [1..<length (shape_of c) - 1] else None)
      in map_images (np_squeeze axis) None c)"

text \<open>The dims that \<open>squeeze\<close> leaves of the dims \<open>ds\<close> (see \<open>squeeze_shape\<close>).\<close>

definition squeezed :: "nat list \<Rightarrow> nat list" where
  "squeezed ds = (if prod_list ds = 1 then take 1 ds else filter (\<lambda>d. d \<noteq> 1) ds)"

subsection \<open>Projections\<close>










subsection \<open>subsample\<close>

text \<open>
  The factor is one integer, used for every axis, or a sequence of integers
  (\<^verbatim>\<open>hasattr(factor, "__len__")\<close>).
\<close>

datatype factor = Single int | PerAxis "int list"

text \<open>\<^verbatim>\<open>roundup(a, b) = (a + b - 1) // b\<close>; Python's \<^verbatim>\<open>//\<close> rounds down, as \<open>div\<close> does.\<close>

definition roundup :: "int \<Rightarrow> int \<Rightarrow> int" where
  "roundup a b = (a + b - 1) div b"

text \<open>
  A slice \<^verbatim>\<open>slice(start, stop, step)\<close> with a positive step selects, on an axis of
  extent \<open>d\<close>, the indices \<open>start, start + step, ...\<close> below \<open>min stop d\<close>.
\<close>

record py_slice =
  start :: nat
  stop :: nat
  step :: nat

function range_from :: "nat \<Rightarrow> nat \<Rightarrow> nat \<Rightarrow> nat list" where
  "range_from i bound st =
     (if st = 0 \<or> bound \<le> i then [] else i # range_from (i + st) bound st)"
  by pat_completeness auto
termination
  by (relation "measure (\<lambda>(i, bound, st). bound - i)") auto

declare range_from.simps [simp del]

definition slice_indices :: "py_slice \<Rightarrow> nat \<Rightarrow> nat list" where
  "slice_indices sl d = range_from (start sl) (min (stop sl) d) (step sl)"

text \<open>
  Picking index lists axis by axis out of a row-major buffer: for each picked index of
  axis 0, the picks inside that sub-array. Axes without a pick list are kept whole.
\<close>

fun take_nd :: "nat list list \<Rightarrow> nat list \<Rightarrow> 'a list \<Rightarrow> 'a list" where
  "take_nd [] sh xs = xs"
| "take_nd (js # jss) [] xs = xs"
| "take_nd (js # jss) (d # ds) xs =
     concat (map (\<lambda>i. take_nd jss ds (take (prod_list ds) (drop (i * prod_list ds) xs))) js)"

text \<open>
  \<^verbatim>\<open>v[slices]\<close> for a list of slices, one per leading axis, which the numpy the code
  was written for reads as the tuple of these slices: more slices than axes is an
  IndexError.
\<close>

definition np_getitem :: "py_slice list \<Rightarrow> 'a ndarray \<Rightarrow> error + 'a ndarray" where
  "np_getitem slices v =
     (if length (shape v) < length slices then Inl IndexError
      else let picks = map2 slice_indices slices (shape v)
           in Inr \<lparr>shape = map length picks @ drop (length slices) (shape v),
                     data = take_nd picks (shape v) (data v)\<rparr>)"

text \<open>
  \<^verbatim>\<open>subsample(factor)\<close>. A sequence shorter than the number of dims fails at
  \<^verbatim>\<open>factor[i]\<close> with an IndexError, after the check that every factor is positive.
\<close>

definition per_axis :: "factor \<Rightarrow> nat \<Rightarrow> int list" where
  "per_axis fac ndims = (case fac of Single f \<Rightarrow> replicate ndims f | PerAxis fs \<Rightarrow> fs)"

definition subsample :: "factor \<Rightarrow> 'a images \<Rightarrow> error + 'a images" where
  "subsample fac c =
     (let ds = dims c;
          ndims = length ds;
          fs = per_axis fac ndims
      in if list_ex (\<lambda>sf. sf \<le> 0) fs then Inl ValueError
         else if length fs < ndims then Inl IndexError
         else let slices = map (\<lambda>i. \<lparr>start = 0, stop = ds ! i, step = nat (fs ! i)\<rparr>) [0..<ndims];
                  newdims = map (\<lambda>i. nat (roundup (int (ds ! i)) (fs ! i))) [0..<ndims]
              in map_images (np_getitem slices) (Some newdims) c)"

subsection \<open>Filters\<close>

text \<open>
  A function mapped over the images may write into the array it is handed (numpy arrays
  are mutable objects, passed by reference). Such a function returns a pair: the array
  it was handed, as the call leaves it, and the array it returns. \<open>map_images_fx\<close> is
  the map of \<open>map_images\<close> for such a function; it returns the collection mapped over,
  its elements as the calls leave them, and the collection of the results.
\<close>

definition map_images_fx ::
  "('a ndarray \<Rightarrow> error + 'a ndarray \<times> 'b ndarray) \<Rightarrow> nat list option \<Rightarrow> 'a images \<Rightarrow>
   error + 'a images \<times> 'b images" where
  "map_images_fx func dims_arg c =
     (case map_images (\<lambda>x. case func x of Inl e \<Rightarrow> Inl e | Inr (x', y) \<Rightarrow> Inr y) dims_arg c of
        Inl e \<Rightarrow> Inl e
      | Inr r \<Rightarrow>
          (case mapM func (elements (values_of c)) of
             Inl e \<Rightarrow> Inl e
           | Inr prs \<Rightarrow>
               Inr (Images ((values_of c)\<lparr>data := concat (map (\<lambda>(x', y). data x') prs)\<rparr>)
                      (mode_of c), r)))"

text \<open>A function that returns a new array and leaves its argument alone.\<close>

definition unchanged :: "('a ndarray \<Rightarrow> error + 'b ndarray) \<Rightarrow> 'a ndarray \<Rightarrow> error + 'a ndarray \<times> 'b ndarray" where
  "unchanged f x = (case f x of Inl e \<Rightarrow> Inl e | Inr y \<Rightarrow> Inr (x, y))"

text \<open>
  The \<^verbatim>\<open>size\<close> argument of a filter is a scalar or a sequence; \<^verbatim>\<open>size[2]\<close> of a
  scalar is a TypeError and of a sequence shorter than three an IndexError.
\<close>

datatype fsize = Scalar int | Seq "int list"

definition size_at2 :: "fsize \<Rightarrow> error + int" where
  "size_at2 sz =
     (case sz of
        Scalar s \<Rightarrow> Inl TypeError
      | Seq ss \<Rightarrow> if length ss < 3 then Inl IndexError else Inr (ss ! 2))"

definition size_0_2 :: "fsize \<Rightarrow> fsize" where
  "size_0_2 sz = (case sz of Scalar s \<Rightarrow> Scalar s | Seq ss \<Rightarrow> Seq (take 2 ss))"

text \<open>
  \<^verbatim>\<open>im[:, :, z]\<close> of a 3-d array, and the assignment \<^verbatim>\<open>im[:, :, z] = pl\<close> of a plane of
  the same two leading extents. (A plane of another shape would be broadcast or
  rejected by numpy; the filters return arrays of the shape of their input.)
\<close>

definition get_plane :: "nat \<Rightarrow> 'a ndarray \<Rightarrow> error + 'a ndarray" where
  "get_plane z im =
     (case shape im of
        [d0, d1, d2] \<Rightarrow>
          if d2 \<le> z then Inl IndexError
          else Inr \<lparr>shape = [d0, d1], data = map (\<lambda>q. data im ! (q * d2 + z)) [0..<d0 * d1]\<rparr>
      | _ \<Rightarrow> Inl IndexError)"

definition set_plane :: "nat \<Rightarrow> 'a ndarray \<Rightarrow> 'a ndarray \<Rightarrow> error + 'a ndarray" where
  "set_plane z im pl =
     (case shape im of
        [d0, d1, d2] \<Rightarrow>
          if d2 \<le> z then Inl IndexError
          else if shape pl \<noteq> [d0, d1] then Inl ValueError
          else Inr (im\<lparr>data := map (\<lambda>k. if k mod d2 = z then data pl ! (k div d2) else data im ! k)
                                   [0..<length (data im)]\<rparr>)
      | _ \<Rightarrow> Inl IndexError)"

text \<open>
  The loop \<^verbatim>\<open>for z in arange(0, dims[2]): im[:, :, z] = func(im[:, :, z], size[0:2])\<close>,
  run on the array \<open>im\<close>.
\<close>

fun filter_planes ::
  "('a ndarray \<Rightarrow> fsize \<Rightarrow> error + 'a ndarray) \<Rightarrow> fsize \<Rightarrow> nat list \<Rightarrow> 'a ndarray \<Rightarrow> error + 'a ndarray" where
  "filter_planes func sz [] im = Inr im"
| "filter_planes func sz (z # zs) im =
     (case get_plane z im of
        Inl e \<Rightarrow> Inl e
      | Inr pl \<Rightarrow>
          (case func pl sz of
             Inl e \<Rightarrow> Inl e
           | Inr pl' \<Rightarrow>
               (case set_plane z im pl' of
                  Inl e \<Rightarrow> Inl e
                | Inr im' \<Rightarrow> filter_planes func sz zs im')))"

text \<open>
  The inner \<^verbatim>\<open>filter_\<close> of the 3-d special case. In spark mode the array handed in is
  made writable and the loop writes into it; it is also what is returned. In local mode
  the loop runs on a copy, which is returned.
\<close>

definition filter_slices ::
  "('a ndarray \<Rightarrow> fsize \<Rightarrow> error + 'a ndarray) \<Rightarrow> mode \<Rightarrow> nat list \<Rightarrow> fsize \<Rightarrow> 'a ndarray \<Rightarrow>
   error + 'a ndarray \<times> 'a ndarray" where
  "filter_slices func m ds sz im =
     (case filter_planes func (size_0_2 sz) [0..<ds ! 2] im of
        Inl e \<Rightarrow> Inl e
      | Inr r \<Rightarrow> (case m of Spark \<Rightarrow> Inr (r, r) | Local \<Rightarrow> Inr (im, r)))"

datatype filter_name = Median | Uniform

text \<open>\<^verbatim>\<open>if ndims == 3 and isscalar(size) == 1: size = [size, size, size]\<close>\<close>

definition expand_size :: "nat \<Rightarrow> fsize \<Rightarrow> fsize" where
  "expand_size ndims sz =
     (if ndims = 3 then (case sz of Scalar s \<Rightarrow> Seq [s, s, s] | Seq ss \<Rightarrow> Seq ss) else sz)"

text \<open>
  \<^verbatim>\<open>_image_filter(filter, size)\<close>. The table \<^verbatim>\<open>FILTERS\<close> holds scipy's
  \<^verbatim>\<open>median_filter\<close> and \<^verbatim>\<open>uniform_filter\<close>: functions that return a new array, a
  parameter here. The default \<^verbatim>\<open>filter=None\<close> is not a key of the table. The result
  is the pair of \<open>map_images_fx\<close>: the collection as the call leaves it, and the
  collection returned.
\<close>

definition image_filter ::
  "(filter_name \<Rightarrow> 'a ndarray \<Rightarrow> fsize \<Rightarrow> error + 'a ndarray) \<Rightarrow> filter_name option \<Rightarrow> fsize \<Rightarrow>
   'a images \<Rightarrow> error + 'a images \<times> 'a images" where
  "image_filter FILTERS filter_arg sz c =
     (case filter_arg of
        None \<Rightarrow> Inl KeyError
      | Some name \<Rightarrow>
          (let func = FILTERS name;
               m = mode_of c;
               ds = dims c;
               ndims = length ds;
               sz' = expand_size ndims sz
           in case (if ndims = 3 then size_at2 sz' else Inr 1) of
                Inl e \<Rightarrow> Inl e
              | Inr s2 \<Rightarrow>
                  if ndims = 3 \<and> s2 = 0
                  then map_images_fx (filter_slices func m ds sz') (Some ds) c
                  else map_images_fx (unchanged (\<lambda>x. func x sz')) (Some ds) c))"

definition uniform_filter ::
  "(filter_name \<Rightarrow> 'a ndarray \<Rightarrow> fsize \<Rightarrow> error + 'a ndarray) \<Rightarrow> fsize \<Rightarrow> 'a images \<Rightarrow>
   error + 'a images \<times> 'a images" where
  "uniform_filter FILTERS sz c = image_filter FILTERS (Some Uniform) sz c"



text \<open>
  A stand-in for a scipy filter, to run the definitions on: it keeps the shape and
  replaces every item by the first item of the array.
\<close>

definition flatten_filter :: "filter_name \<Rightarrow> 'a ndarray \<Rightarrow> fsize \<Rightarrow> error + 'a ndarray" where
  "flatten_filter name x sz = Inr (x\<lparr>data := map (\<lambda>v. hd (data x)) (data x)\<rparr>)"

subsection \<open>subtract\<close>




subsection \<open>sample\<close>

text \<open>
  What \<^verbatim>\<open>sample\<close> calls outside the repository: numpy's global random generator,
  whose state \<open>'g\<close> every draw advances (\<^verbatim>\<open>random.randint(low, high)\<close> and
  \<^verbatim>\<open>random.rand(n)\<close>, \<open>n\<close> uniform draws from [0, 1)), and the engine's
  \<^verbatim>\<open>takeSample(withReplacement, num, seed)\<close> on the records of the collection, which
  draws from a generator of its own, set up from the seed.
\<close>

record ('g, 'a) library =
  randint :: "int \<Rightarrow> int \<Rightarrow> 'g \<Rightarrow> int \<times> 'g"
  rand :: "nat \<Rightarrow> 'g \<Rightarrow> real list \<times> 'g"
  takeSample :: "bool \<Rightarrow> nat \<Rightarrow> int \<Rightarrow> 'a ndarray list \<Rightarrow> 'a ndarray list"

text \<open>\<^verbatim>\<open>int(k)\<close> of a float rounds towards zero.\<close>

definition py_int :: "real \<Rightarrow> int" where
  "py_int x = (if 0 \<le> x then \<lfloor>x\<rfloor> else \<lceil>x\<rceil>)"

text \<open>\<^verbatim>\<open>a[i]\<close> for an integer: a negative index counts from the end.\<close>

definition getitem :: "'a ndarray \<Rightarrow> int \<Rightarrow> error + 'a ndarray" where
  "getitem a i =
     (case shape a of
        [] \<Rightarrow> Inl IndexError
      | n # ds \<Rightarrow>
          (let j = (if i < 0 then i + int n else i)
           in if j < 0 \<or> int n \<le> j then Inl IndexError else Inr (element a (nat j))))"

text \<open>\<^verbatim>\<open>asarray\<close> of a list of arrays of one shape stacks them along a new axis 0.\<close>

definition asarray :: "'a ndarray list \<Rightarrow> 'a ndarray" where
  "asarray xs =
     (case xs of
        [] \<Rightarrow> \<lparr>shape = [0], data = []\<rparr>
      | x # _ \<Rightarrow> \<lparr>shape = length xs # shape x, data = concat (map data xs)\<rparr>)"

text \<open>
  \<^verbatim>\<open>sample(nsamples, seed)\<close>, with the state of the global generator passed in and
  returned. The local arm draws from the global generator and never looks at \<open>seed\<close>.
\<close>

definition sample ::
  "('g, 'a) library \<Rightarrow> int \<Rightarrow> int option \<Rightarrow> 'a images \<Rightarrow> 'g \<Rightarrow> (error + 'a images) \<times> 'g" where
  "sample lib nsamples seed c g =
     (if nsamples < 1 then (Inl ValueError, g)
      else
        (let (seed', g1) = (case seed of None \<Rightarrow> randint lib 0 (2 ^ 32) g | Some s \<Rightarrow> (s, g))
         in case mode_of c of
              Spark \<Rightarrow>
                (Inr (constructor (asarray (takeSample lib False (nat nsamples) seed'
                                             (elements (values_of c))))), g1)
            | Local \<Rightarrow>
                (let (ks, g2) = rand lib (nat nsamples) g1
                 in case shape_of c of
                      [] \<Rightarrow> (Inl IndexError, g2)
                    | n # ds \<Rightarrow>
                        (case mapM (getitem (values_of c)) (map (\<lambda>k. py_int (k * real n)) ks) of
                           Inl e \<Rightarrow> (Inl e, g2)
                         | Inr xs \<Rightarrow> (Inr (constructor (asarray xs)), g2)))))"

text \<open>
  A stand-in for the library, to run the definitions on. The state of the generator is
  the list of the uniform draws still to come; the engine's sample is the first records
  of the collection rotated by the seed.
\<close>

definition listed_random :: "(real list, 'a) library" where
  "listed_random =
     \<lparr>randint = (\<lambda>lo hi g. case g of [] \<Rightarrow> (lo, []) | u # g' \<Rightarrow> (lo + py_int (u * real_of_int (hi - lo)), g')),
      rand = (\<lambda>n g. (take n g, drop n g)),
      takeSample = (\<lambda>repl n seed xs. take n (rotate (nat seed) xs))\<rparr>"

text \<open>Two images of one pixel each.\<close>

definition two_pixels :: "mode \<Rightarrow> 'a::numeral images" where
  "two_pixels m = Images \<lparr>shape = [2, 1], data = [10, 20]\<rparr> m"

subsection \<open>localcorr\<close>

text \<open>The argument \<^verbatim>\<open>neighborhood\<close> is tested with \<^verbatim>\<open>isinstance(neighborhood, int)\<close>.\<close>

datatype py_num = PyInt int | PyFloat real

text \<open>
  \<^verbatim>\<open>concatenate((a, b), axis=0)\<close> (in distributed mode: \<^verbatim>\<open>a.concatenate(b)\<close>): the
  arrays must agree in every axis but the first; 0-d arrays cannot be concatenated.
\<close>

definition concatenate0 :: "'a ndarray \<Rightarrow> 'a ndarray \<Rightarrow> error + 'a ndarray" where
  "concatenate0 a b =
     (case shape a of
        [] \<Rightarrow> Inl ValueError
      | n # ds \<Rightarrow>
          (case shape b of
             [] \<Rightarrow> Inl ValueError
           | m # es \<Rightarrow>
               if ds = es then Inr \<lparr>shape = (n + m) # ds, data = data a @ data b\<rparr>
               else Inl ValueError))"

text \<open>
  Modelled from the spec: the readers \<^verbatim>\<open>fromarray\<close> and \<^verbatim>\<open>fromrdd\<close> are not among
  the sources. Given an array-like object they produce a conforming collection, local
  for an array and distributed for the records of a distributed collection.
\<close>

definition fromarray :: "'a ndarray \<Rightarrow> 'a images" where
  "fromarray v = Images v Local"

definition fromrdd :: "'a ndarray \<Rightarrow> 'a images" where
  "fromrdd v = Images v Spark"

text \<open>
  Modelled from the spec: the class \<^verbatim>\<open>Series\<close> is not among the sources. It holds a
  storage object whose last axis is the series axis, with an index labelling that axis;
  its \<^verbatim>\<open>map\<close> applies a function to the series of each position, and \<^verbatim>\<open>toarray\<close>
  materialises the values as a local array.
\<close>

record 'a series =
  series_values :: "'a ndarray"
  index :: "nat list"

definition series_map :: "('a list \<Rightarrow> 'b) \<Rightarrow> 'a series \<Rightarrow> 'b series" where
  "series_map f s =
     (let sh = shape (series_values s)
      in if sh = [] then \<lparr>series_values = \<lparr>shape = [], data = [f (data (series_values s))]\<rparr>,
                           index = index s\<rparr>
         else
           (let t = last sh
            in \<lparr>series_values =
                  \<lparr>shape = butlast sh,
                   data = map (\<lambda>p. f (take t (drop (p * t) (data (series_values s)))))
                              [0..<prod_list (butlast sh)]\<rparr>,
                index = index s\<rparr>))"

definition toarray :: "'a series \<Rightarrow> 'a ndarray" where
  "toarray s = series_values s"

text \<open>
  \<^verbatim>\<open>a.transpose(tuple(range(1, n+1)) + (0,))\<close> (in distributed mode the swap of the
  key axis 0 with the value axes): axis 0 becomes the last axis, so that the items of
  the flat position \<open>p\<close> of the other axes lie next to each other.
\<close>

definition transpose_0_last :: "'a ndarray \<Rightarrow> 'a ndarray" where
  "transpose_0_last a =
     (case shape a of
        [] \<Rightarrow> a
      | n # ds \<Rightarrow> \<lparr>shape = ds @ [n], data = concat (map (column a) [0..<prod_list ds])\<rparr>)"

text \<open>\<^verbatim>\<open>toseries\<close>; \<^verbatim>\<open>index = arange(self.shape[0])\<close> needs an axis 0.\<close>

definition toseries :: "'a images \<Rightarrow> error + 'a series" where
  "toseries c =
     (case shape_of c of
        [] \<Rightarrow> Inl IndexError
      | n # ds \<Rightarrow> Inr \<lparr>series_values = transpose_0_last (values_of c), index = [0..<n]\<rparr>)"

text \<open>
  \<^verbatim>\<open>localcorr(neighborhood)\<close>. \<open>corrcoef xs ys\<close> stands for numpy's
  \<^verbatim>\<open>corrcoef(xs, ys)[0, 1]\<close>, the Pearson correlation coefficient of two sequences
  (a parameter, as the filters are). \<^verbatim>\<open>self.values\<close> is read after the call of
  \<^verbatim>\<open>uniform_filter\<close>, from the collection as that call leaves it.
\<close>

definition localcorr ::
  "(filter_name \<Rightarrow> 'a ndarray \<Rightarrow> fsize \<Rightarrow> error + 'a ndarray) \<Rightarrow> ('a list \<Rightarrow> 'a list \<Rightarrow> 'b) \<Rightarrow>
   py_num \<Rightarrow> 'a images \<Rightarrow> error + 'b ndarray" where
  "localcorr FILTERS corrcoef neighborhood c =
     (case neighborhood of
        PyFloat x \<Rightarrow> Inl ValueError
      | PyInt nb \<Rightarrow>
          (case shape_of c of
             [] \<Rightarrow> Inl IndexError
           | nimages # ds \<Rightarrow>
               (case uniform_filter FILTERS (Scalar (nb * 2 + 1)) c of
                  Inl e \<Rightarrow> Inl e
                | Inr (self', blurred) \<Rightarrow>
                    (case concatenate0 (values_of self') (values_of blurred) of
                       Inl e \<Rightarrow> Inl e
                     | Inr combined \<Rightarrow>
                         (let combinedImages =
                                (case mode_of self' of
                                   Spark \<Rightarrow> fromrdd combined
                                 | Local \<Rightarrow> fromarray combined)
                          in case toseries combinedImages of
                               Inl e \<Rightarrow> Inl e
                             | Inr series \<Rightarrow>
                                 Inr (toarray (series_map
                                        (\<lambda>x. corrcoef (take nimages x) (drop nimages x))
                                        series)))))))"

text \<open>
  The algorithm as the spec words it, on the list of the images: (1) blur every image;
  (2) put the blurred images behind the originals; (3) the series of a position is what
  the 2N images hold there; (4) correlate its first N values with its last N values;
  (5) the coefficients of all positions make up a local array.
\<close>

definition localcorr_spec ::
  "('a ndarray \<Rightarrow> 'a ndarray) \<Rightarrow> ('a list \<Rightarrow> 'a list \<Rightarrow> 'b) \<Rightarrow> 'a images \<Rightarrow> 'b ndarray" where
  "localcorr_spec blur pearson c =
     (let originals = elements (values_of c);
          N = length originals;
          blurred = map blur originals;
          combined = originals @ blurred;
          series = (\<lambda>p. map (\<lambda>x. data x ! p) combined)
      in \<lparr>shape = dims c,
          data = map (\<lambda>p. pearson (take N (series p)) (drop N (series p)))
                     [0..<prod_list (dims c)]\<rparr>)"

text \<open>Two volumes with dims (1, 2, 2), in a given mode.\<close>

definition two_volumes :: "mode \<Rightarrow> int images" where
  "two_volumes m = Images \<lparr>shape = [2, 1, 2, 2], data = [1, 2, 3, 4, 5, 6, 7, 8]\<rparr> m"


section \<open>Properties\<close>

subsection \<open>Aggregates\<close>

lemma reduce0_keepdims_Cons:
  "shape a = n # ds \<Longrightarrow>
   \<exists>v. reduce0_keepdims f a = Inr v \<and> shape v = 1 # ds"
  by (simp add: reduce0_keepdims_def)

lemma reduce0_noident_Cons:
  "shape a = n # ds \<Longrightarrow> 0 < n \<Longrightarrow>
   \<exists>v. reduce0_noident f a = Inr v \<and> shape v = 1 # ds"
  by (simp add: reduce0_noident_def reduce0_keepdims_def)

lemma wrap_single:
  assumes "\<exists>v. r = Inr v \<and> shape v = 1 # ds" and "dims c = ds"
  shows "\<exists>r'. wrap r = Inr r' \<and> count r' = Inr 1 \<and> dims r' = dims c"
  using assms
  by (auto simp: wrap_def constructor_def Images_def count_def dims_def shape_of_def)

text \<open>
  C2. On a non-empty collection each of mean, var, std, sum, max and min returns a
  collection (a value of the collection type, not a number) that counts exactly one
  element and whose dims are the dims of the input.
\<close>

theorem aggregates_single_element:
  assumes "count c = Inr n" and "0 < n"
  shows "(\<exists>r. mean c = Inr r \<and> count r = Inr 1 \<and> dims r = dims c) \<and>
         (\<exists>r. var c = Inr r \<and> count r = Inr 1 \<and> dims r = dims c) \<and>
         (\<exists>r. std c = Inr r \<and> count r = Inr 1 \<and> dims r = dims c) \<and>
         (\<exists>r. sum_images c = Inr r \<and> count r = Inr 1 \<and> dims r = dims c) \<and>
         (\<exists>r. max_images c = Inr r \<and> count r = Inr 1 \<and> dims r = dims c) \<and>
         (\<exists>r. min_images c = Inr r \<and> count r = Inr 1 \<and> dims r = dims c)"
proof -
  from assms(1) obtain ds where sh: "shape (values_of c) = n # ds"
    by (auto simp: count_def shape_of_def split: list.splits)
  then have d: "dims c = ds"
    by (simp add: dims_def shape_of_def)
  note k = reduce0_keepdims_Cons [OF sh]
  note m = reduce0_noident_Cons [OF sh assms(2)]
  show ?thesis
    unfolding mean_def var_def std_def sum_images_def max_images_def min_images_def
    using wrap_single [OF k d] wrap_single [OF m d] by blast
qed

theorem aggregates_single_element_witness:
  "count (Images \<lparr>shape = [2, 2], data = [1, 2, 3, 4::real]\<rparr> Spark) = Inr 2 \<and>
   (\<exists>r. mean (Images \<lparr>shape = [2, 2], data = [1, 2, 3, 4::real]\<rparr> Spark) = Inr r \<and>
        count r = Inr 1 \<and> dims r = [2]) \<and>
   (\<exists>r. max_images (Images \<lparr>shape = [2, 2], data = [1, 2, 3, 4::real]\<rparr> Spark) = Inr r \<and>
        count r = Inr 1 \<and> dims r = [2])"
proof -
  let ?c = "Images \<lparr>shape = [2, 2], data = [1, 2, 3, 4::real]\<rparr> Spark"
  have h: "count ?c = Inr 2"
    by (simp add: count_def shape_of_def Images_def)
  have d: "dims ?c = [2]"
    by (simp add: dims_def shape_of_def Images_def)
  show ?thesis
    using h d aggregates_single_element [OF h] by simp
qed

subsection \<open>squeeze\<close>

lemma mapM_total: "(\<And>x. x \<in> set xs \<Longrightarrow> f x = Inr (g x)) \<Longrightarrow> mapM f xs = Inr (map g xs)"
  by (induction xs) auto

lemma prod_list_one_all: "prod_list (ds::nat list) = 1 \<Longrightarrow> d \<in> set ds \<Longrightarrow> d = 1"
  by (induction ds) auto

lemma prod_list_filter_ne1: "prod_list (filter (\<lambda>d. d \<noteq> 1) ds) = prod_list (ds::nat list)"
  by (induction ds) auto

lemma shape_element [simp]: "shape (element a i) = tl (shape a)"
  by (simp add: element_def Let_def)

lemma keep_first: "filter (\<lambda>i. i \<notin> set [1..<k]) [0..<k] = (if k = 0 then [] else [0])"
proof (cases k)
  case 0 then show ?thesis by simp
next
  case (Suc m)
  have "filter (\<lambda>i. i \<notin> set [1..<Suc m]) [0..<Suc m] = filter (\<lambda>i. i = 0) [0..<Suc m]"
    by (rule filter_cong) auto
  also have "\<dots> = [0]"
    by (induction m) auto
  finally show ?thesis using Suc by simp
qed

lemma np_squeeze_ones:
  assumes "prod_list (shape x) = 1"
  shows "np_squeeze (Some [1..<length (shape x)]) x = Inr (x\<lparr>shape := take 1 (shape x)\<rparr>)"
proof -
  have one: "shape x ! k = 1" if "k < length (shape x)" for k
    using prod_list_one_all [OF assms] that by simp
  have a: "\<not> list_ex (\<lambda>k. length (shape x) \<le> k) [1..<length (shape x)]"
    by (simp add: list_ex_iff)
  have b: "\<not> list_ex (\<lambda>k. shape x ! k \<noteq> 1) [1..<length (shape x)]"
    using one by (simp add: list_ex_iff)
  have c: "map (\<lambda>k. shape x ! k) (filter (\<lambda>k. k \<notin> set [1..<length (shape x)]) [0..<length (shape x)])
           = take 1 (shape x)"
    unfolding keep_first by (cases "shape x") auto
  show ?thesis
    unfolding np_squeeze_def using a b c by simp
qed

lemma squeezed_idem: "squeezed (squeezed ds) = squeezed ds"
proof (cases "prod_list ds = 1")
  case True
  then have "prod_list (take 1 ds) = 1"
    by (cases ds) auto
  with True show ?thesis by (simp add: squeezed_def)
next
  case False
  have a: "squeezed ds = filter (\<lambda>d. d \<noteq> 1) ds"
    using False by (simp add: squeezed_def)
  have b: "prod_list (squeezed ds) \<noteq> 1"
    unfolding a prod_list_filter_ne1 by (rule False)
  then have "squeezed (squeezed ds) = filter (\<lambda>d. d \<noteq> 1) (squeezed ds)"
    by (simp add: squeezed_def)
  then show ?thesis using a by simp
qed

lemma map_images_None:
  assumes "shape_of c = n # ds" and "mapM func (elements (values_of c)) = Inr (y # ys)"
  shows "map_images func None c =
         Inr (Images \<lparr>shape = n # shape y, data = concat (map data (y # ys))\<rparr> (mode_of c))"
  using assms by (simp add: map_images_def)

lemma map_images_Some:
  assumes "shape_of c = n # ds" and "mapM func (elements (values_of c)) = Inr ys"
  shows "map_images func (Some d) c =
         Inr (Images \<lparr>shape = n # d, data = concat (map data ys)\<rparr> (mode_of c))"
  using assms by (simp add: map_images_def)

lemma elements_Cons:
  assumes "shape a = n # ds" and "0 < n"
  shows "elements a = element a 0 # map (element a) [1..<n]"
  using assms by (simp add: elements_def upt_conv_Cons)

lemma shape_elements: "x \<in> set (elements a) \<Longrightarrow> shape x = tl (shape a)"
  by (auto simp: elements_def split: list.splits)

lemma squeeze_shape:
  assumes "shape_of c = n # ds" and "0 < n"
  shows "\<exists>r. squeeze c = Inr r \<and> shape_of r = n # squeezed ds \<and> mode_of r = mode_of c"
proof -
  let ?axis = "if prod_list ds = 1 then Some [1..<length ds] else None"
  let ?g = "\<lambda>x::'a ndarray. x\<lparr>shape := squeezed (shape x)\<rparr>"
  let ?es = "elements (values_of c)"
  have sq: "squeeze c = map_images (np_squeeze ?axis) None c"
    using assms(1) by (simp add: squeeze_def)
  have el: "np_squeeze ?axis x = Inr (?g x)" if "x \<in> set ?es" for x
  proof -
    from shape_elements [OF that] assms(1) have sx: "shape x = ds"
      by (simp add: shape_of_def)
    show ?thesis
    proof (cases "prod_list ds = 1")
      case True
      with np_squeeze_ones [of x] sx show ?thesis by (simp add: squeezed_def)
    next
      case False
      with sx show ?thesis by (simp add: squeezed_def np_squeeze_def)
    qed
  qed
  have m: "mapM (np_squeeze ?axis) ?es = Inr (map ?g ?es)"
    by (rule mapM_total) (rule el)
  from assms have ne: "?es = element (values_of c) 0 # map (element (values_of c)) [1..<n]"
    by (intro elements_Cons) (simp_all add: shape_of_def)
  then obtain y ys where ys: "map ?g ?es = y # ys" and y: "y = ?g (element (values_of c) 0)"
    by simp
  have "shape y = squeezed ds"
    using y assms(1) by (simp add: shape_of_def)
  with map_images_None [OF assms(1), of "np_squeeze ?axis" y ys] m ys sq
  show ?thesis
    by (simp add: Images_def shape_of_def)
qed

text \<open>
  C3 (as stated, refuted). A collection of one image with dims (4, 1, 3): the product of
  the dims is 12, and squeeze returns a collection with dims (4, 3).
\<close>

theorem squeeze_not_noop_counterexample:
  "1 < prod_list (dims (Images \<lparr>shape = [1, 4, 1, 3], data = [0..<12]\<rparr> Local)) \<and>
   squeeze (Images \<lparr>shape = [1, 4, 1, 3], data = [0..<12]\<rparr> Local) =
     Inr (Images \<lparr>shape = [1, 4, 3], data = [0..<12]\<rparr> Local) \<and>
   dims (Images \<lparr>shape = [1, 4, 3], data = [0..<12]\<rparr> Local) \<noteq>
   dims (Images \<lparr>shape = [1, 4, 1, 3], data = [0..<12]\<rparr> Local)"
  by code_simp

text \<open>
  C3 (amended). On a non-empty collection squeeze removes size-1 dims in both cases:
  when the product of the dims is 1 it removes every dim but the leading one, and
  otherwise it removes every dim of size 1.
\<close>

theorem squeeze_dims:
  assumes "count c = Inr n" and "0 < n"
  shows "\<exists>r. squeeze c = Inr r \<and>
             dims r = (if prod_list (dims c) = 1 then take 1 (dims c)
                       else filter (\<lambda>d. d \<noteq> 1) (dims c))"
proof -
  from assms(1) obtain ds where sh: "shape_of c = n # ds"
    by (auto simp: count_def split: list.splits)
  from squeeze_shape [OF sh assms(2)] sh show ?thesis
    by (auto simp: dims_def squeezed_def)
qed

theorem squeeze_dims_witness:
  "count (Images \<lparr>shape = [2, 1, 5, 1], data = [0..<10]\<rparr> Spark) = Inr 2 \<and>
   (\<exists>r. squeeze (Images \<lparr>shape = [2, 1, 5, 1], data = [0..<10]\<rparr> Spark) = Inr r \<and>
        dims r = [5])"
proof -
  let ?c = "Images \<lparr>shape = [2, 1, 5, 1], data = [0..<10]\<rparr> Spark"
  have h: "count ?c = Inr 2"
    by (simp add: count_def shape_of_def Images_def)
  have d: "dims ?c = [1, 5, 1]"
    by (simp add: dims_def shape_of_def Images_def)
  have e: "(if prod_list (dims ?c) = 1 then take 1 (dims ?c)
             else filter (\<lambda>d. d \<noteq> 1) (dims ?c)) = [5]"
    unfolding d by simp
  have "\<exists>r. squeeze ?c = Inr r \<and> dims r = [5]"
    using squeeze_dims [OF h] unfolding e by simp
  with h show ?thesis by blast
qed

text \<open>
  C9. squeeze is idempotent on dims: squeezing the result of squeeze returns a
  collection with the same dims.
\<close>

theorem squeeze_idem:
  assumes "count c = Inr n" and "0 < n"
  shows "\<exists>r r'. squeeze c = Inr r \<and> squeeze r = Inr r' \<and> dims r' = dims r"
proof -
  from assms(1) obtain ds where sh: "shape_of c = n # ds"
    by (auto simp: count_def split: list.splits)
  from squeeze_shape [OF sh assms(2)] obtain r
    where r: "squeeze c = Inr r" "shape_of r = n # squeezed ds" by blast
  from squeeze_shape [OF r(2) assms(2)] obtain r'
    where r': "squeeze r = Inr r'" "shape_of r' = n # squeezed (squeezed ds)" by blast
  from r r' show ?thesis by (simp add: dims_def squeezed_idem)
qed

theorem squeeze_idem_witness:
  "count (Images \<lparr>shape = [2, 1, 1], data = [7, 8::int]\<rparr> Local) = Inr 2 \<and>
   (\<exists>r r'. squeeze (Images \<lparr>shape = [2, 1, 1], data = [7, 8::int]\<rparr> Local) = Inr r \<and>
           squeeze r = Inr r' \<and> dims r' = dims r)"
proof -
  let ?c = "Images \<lparr>shape = [2, 1, 1], data = [7, 8::int]\<rparr> Local"
  have h: "count ?c = Inr 2"
    by (simp add: count_def shape_of_def Images_def)
  show ?thesis
    using h squeeze_idem [OF h] by simp
qed

subsection \<open>Projections\<close>

lemma without_0 [simp]: "without 0 (x # xs) = xs"
  by (simp add: without_def)

lemma without_Suc [simp]: "without (Suc k) (x # xs) = x # without k xs"
  by (simp add: without_def)

lemma ravel_less: "list_all2 (<) p sh \<Longrightarrow> ravel sh p < prod_list sh"
proof (induction sh p rule: ravel.induct)
  case (1 d ds i "is")
  then have i: "i < d" and r: "ravel ds is < prod_list ds" by simp_all
  have "i * prod_list ds + ravel ds is < i * prod_list ds + prod_list ds"
    using r by simp
  also have "\<dots> = Suc i * prod_list ds" by simp
  also have "\<dots> \<le> d * prod_list ds"
    using i by (intro mult_le_mono1) simp
  finally show ?case by simp
qed auto



lemma sum_list_const: "(\<And>x. x \<in> set xs \<Longrightarrow> g x = (c::nat)) \<Longrightarrow> sum_list (map g xs) = length xs * c"
  by (induction xs) auto

lemma length_concat_const:
  "(\<And>x. x \<in> set xs \<Longrightarrow> length (g x) = c) \<Longrightarrow> length (concat (map g xs)) = length xs * c"
  by (simp add: length_concat comp_def sum_list_const)



lemma block_nth:
  assumes "length xs = d * P" and "q < d" and "m < P"
  shows "take P (drop (q * P) xs) ! m = xs ! (q * P + m)"
proof -
  have "q * P + m < q * P + P" using assms(3) by simp
  also have "\<dots> = Suc q * P" by simp
  also have "\<dots> \<le> d * P" using assms(2) by (intro mult_le_mono1) simp
  finally have "q * P + m < length xs" using assms(1) by simp
  then show ?thesis using assms(3) by simp
qed

lemma block_length:
  assumes "length xs = d * P" and "q < d"
  shows "length (take P (drop (q * P) xs)) = P"
proof -
  have "Suc q * P \<le> d * P" using assms(2) by (intro mult_le_mono1) simp
  then show ?thesis using assms(1) by simp
qed










lemma concat_block:
  assumes "\<And>x. x \<in> set xs \<Longrightarrow> length (g x) = L" and "i < length xs"
  shows "take L (drop (i * L) (concat (map g xs))) = g (xs ! i)"
  using assms
proof (induction xs arbitrary: i)
  case Nil then show ?case by simp
next
  case (Cons x xs)
  show ?case
  proof (cases i)
    case 0
    with Cons.prems show ?thesis by simp
  next
    case (Suc i')
    with Cons.prems have "take L (drop (i' * L) (concat (map g xs))) = g (xs ! i')"
      by (intro Cons.IH) auto
    moreover have "length (g x) = L" using Cons.prems by simp
    ultimately show ?thesis using Suc by simp
  qed
qed

lemma element_of_mapped:
  assumes "shape_of c = n # ds" and "i < n"
    and "\<And>x. x \<in> set (elements (values_of c)) \<Longrightarrow> length (g x) = prod_list nd"
  shows "element \<lparr>shape = n # nd, data = concat (map g (elements (values_of c)))\<rparr> i =
         \<lparr>shape = nd, data = g (element (values_of c) i)\<rparr>"
proof -
  have es: "elements (values_of c) = map (element (values_of c)) [0..<n]"
    using assms(1) by (simp add: elements_def shape_of_def)
  have "take (prod_list nd) (drop (i * prod_list nd) (concat (map g (elements (values_of c)))))
        = g (elements (values_of c) ! i)"
    by (rule concat_block) (use assms es in simp_all)
  then show ?thesis
    using assms(2) by (simp add: element_def es)
qed



lemma element_wf:
  assumes "shape_of c = n # ds" and "wf_array (values_of c)" and "i < n"
  shows "shape (element (values_of c) i) = ds"
    and "length (data (element (values_of c) i)) = prod_list ds"
proof -
  show "shape (element (values_of c) i) = ds"
    using assms(1) by (simp add: shape_of_def)
  have "length (data (values_of c)) = n * prod_list ds"
    using assms(1,2) by (simp add: wf_array_def shape_of_def)
  from block_length [OF this assms(3)] show "length (data (element (values_of c) i)) = prod_list ds"
    using assms(1) by (simp add: element_def shape_of_def Let_def)
qed















subsection \<open>subsample\<close>

lemma div_step:
  assumes "0 < st" and "i < b"
  shows "((b::nat) - i + st - 1) div st = Suc ((b - (i + st) + st - 1) div st)"
proof -
  define m where "m = b - (i + st) + st - 1"
  show ?thesis
  proof (cases "i + st \<le> b")
    case True
    then have "b - i + st - 1 = m + st"
      using assms by (simp add: m_def)
    then have "(b - i + st - 1) div st = (m + st) div st"
      by (rule arg_cong)
    also have "\<dots> = Suc (m div st)"
      using assms(1) by simp
    finally show ?thesis by (simp only: m_def)
  next
    case False
    then have m: "m = st - 1" by (simp add: m_def)
    have "b - i + st - 1 = (b - i - 1) + st" "b - i - 1 < st"
      using False assms by simp_all
    then have "(b - i + st - 1) div st = ((b - i - 1) + st) div st" "(b - i - 1) div st = 0"
      by simp_all
    then have "(b - i + st - 1) div st = Suc 0"
      using assms(1) by (simp only: div_add_self2)
    moreover have "m div st = 0"
      using m assms(1) by simp
    ultimately show ?thesis by (simp only: m_def)
  qed
qed

lemma range_from_map:
  "0 < st \<Longrightarrow> range_from i b st = map (\<lambda>q. i + q * st) [0..<(b - i + st - 1) div st]"
proof (induction i b st rule: range_from.induct)
  case (1 i b st)
  show ?case
  proof (cases "b \<le> i")
    case True
    with 1 show ?thesis by (simp add: range_from.simps [of i])
  next
    case False
    then have lt: "i < b" by simp
    have "range_from i b st = i # range_from (i + st) b st"
      using False "1.prems" by (simp add: range_from.simps [of i])
    also have "\<dots> = i # map (\<lambda>q. i + st + q * st) [0..<(b - (i + st) + st - 1) div st]"
      using "1.IH" False "1.prems" by simp
    also have "\<dots> = map (\<lambda>q. i + q * st) [0..<Suc ((b - (i + st) + st - 1) div st)]"
      by (simp add: map_upt_Suc del: upt_Suc)
    finally show ?thesis
      by (simp only: div_step [OF "1.prems" lt])
  qed
qed


lemma slice_indices_stride:
  "0 < f \<Longrightarrow> slice_indices \<lparr>start = 0, stop = d, step = f\<rparr> d = map (\<lambda>q. q * f) [0..<(d + f - 1) div f]"
  by (simp add: slice_indices_def range_from_map)

lemma roundup_nat:
  assumes "0 < f"
  shows "nat (roundup (int d) f) = (d + nat f - 1) div nat f"
proof -
  have "int d + f - 1 = int (d + nat f - 1)" using assms by simp
  then have "roundup (int d) f = int (d + nat f - 1) div int (nat f)"
    using assms by (simp add: roundup_def)
  also have "\<dots> = int ((d + nat f - 1) div nat f)"
    by (simp only: zdiv_int)
  finally show ?thesis by simp
qed

lemma roundup_ceiling:
  assumes "0 < f"
  shows "roundup a f = \<lceil>real_of_int a / real_of_int f\<rceil>"
proof -
  define z where "z = (a + f - 1) div f"
  define r where "r = (a + f - 1) mod f"
  have eq: "a + f - 1 = f * z + r"
    by (simp add: z_def r_def)
  have r: "0 \<le> r" "r < f"
    using assms by (simp_all add: r_def)
  have up: "a \<le> f * z"
    using eq r by linarith
  have lo: "f * (z - 1) < a"
    using eq r by (simp add: algebra_simps)
  have fr: "0 < real_of_int f" using assms by simp
  have "real_of_int a \<le> real_of_int (f * z)"
    using up by (simp only: of_int_le_iff)
  then have 1: "real_of_int a / real_of_int f \<le> real_of_int z"
    using fr by (simp add: pos_divide_le_eq mult.commute)
  have "real_of_int (f * (z - 1)) < real_of_int a"
    using lo by (simp only: of_int_less_iff)
  then have 2: "real_of_int z - 1 < real_of_int a / real_of_int f"
    using fr by (simp add: pos_less_divide_eq mult.commute)
  have "\<lceil>real_of_int a / real_of_int f\<rceil> = z"
    by (rule ceiling_unique [OF 2 1])
  then have "z = \<lceil>real_of_int a / real_of_int f\<rceil>"
    by (rule sym)
  then show ?thesis
    unfolding roundup_def z_def .
qed


lemma length_take_nd:
  assumes "list_all2 (\<lambda>js d. \<forall>i\<in>set js. i < d) jss sh" and "length xs = prod_list sh"
  shows "length (take_nd jss sh xs) = prod_list (map length jss)"
  using assms
proof (induction jss sh xs rule: take_nd.induct)
  case (1 sh xs)
  then show ?case by simp
next
  case (2 js jss xs)
  then show ?case by simp
next
  case (3 js jss d ds xs)
  have lx: "length xs = d * prod_list ds" using "3.prems"(2) by simp
  have "length (concat (map (\<lambda>i. take_nd jss ds (take (prod_list ds) (drop (i * prod_list ds) xs))) js))
        = length js * prod_list (map length jss)"
  proof (rule length_concat_const)
    fix i assume i: "i \<in> set js"
    with "3.prems"(1) have "i < d" by simp
    from block_length [OF lx this] "3.IH" [OF i] "3.prems"(1)
    show "length (take_nd jss ds (take (prod_list ds) (drop (i * prod_list ds) xs)))
          = prod_list (map length jss)"
      by simp
  qed
  then show ?case by simp
qed

lemma concat_nth_blocks:
  assumes "\<And>x. x \<in> set xs \<Longrightarrow> length (g x) = L" and "q < length xs" and "r < L"
  shows "concat (map g xs) ! (q * L + r) = g (xs ! q) ! r"
proof -
  have len: "length (concat (map g xs)) = length xs * L"
    by (rule length_concat_const) (rule assms(1))
  have "q * L + r < q * L + L" using assms(3) by simp
  also have "\<dots> = Suc q * L" by simp
  also have "\<dots> \<le> length xs * L" using assms(2) by (intro mult_le_mono1) simp
  finally have lt: "q * L + r < length (concat (map g xs))" using len by simp
  have "g (xs ! q) ! r = take L (drop (q * L) (concat (map g xs))) ! r"
    by (simp only: concat_block [of xs g L q, OF assms(1) assms(2)])
  also have "\<dots> = concat (map g xs) ! (q * L + r)"
    using assms(3) lt by simp
  finally show ?thesis by simp
qed

lemma picked_valid:
  assumes "list_all2 (\<lambda>js d. \<forall>i\<in>set js. i < d) jss sh" and "list_all2 (<) p (map length jss)"
  shows "list_all2 (<) (map2 (\<lambda>js q. js ! q) jss p) sh"
  using assms
proof (induction jss sh arbitrary: p rule: list_all2_induct)
  case Nil
  then show ?case by simp
next
  case (Cons js jss d ds)
  from Cons.prems obtain q p' where p: "p = q # p'" "q < length js" "list_all2 (<) p' (map length jss)"
    by (cases p) auto
  with Cons show ?case by simp
qed

lemma take_nd_nth:
  assumes "list_all2 (\<lambda>js d. \<forall>i\<in>set js. i < d) jss sh" and "length xs = prod_list sh"
    and "list_all2 (<) p (map length jss)"
  shows "take_nd jss sh xs ! ravel (map length jss) p = xs ! ravel sh (map2 (\<lambda>js q. js ! q) jss p)"
  using assms
proof (induction jss sh xs arbitrary: p rule: take_nd.induct)
  case (1 sh xs)
  then show ?case by simp
next
  case (2 js jss xs)
  then show ?case by simp
next
  case (3 js jss d ds xs)
  let ?P = "prod_list ds"
  let ?L = "prod_list (map length jss)"
  let ?g = "\<lambda>i. take_nd jss ds (take ?P (drop (i * ?P) xs))"
  from "3.prems"(3) obtain q p' where p: "p = q # p'" and q: "q < length js"
    and p': "list_all2 (<) p' (map length jss)"
    by (cases p) auto
  from "3.prems"(1) have v: "list_all2 (\<lambda>js d. \<forall>i\<in>set js. i < d) jss ds" and js: "\<forall>i\<in>set js. i < d"
    by simp_all
  have lx: "length xs = d * ?P" using "3.prems"(2) by simp
  have jq: "js ! q \<in> set js" using q by simp
  then have jd: "js ! q < d" using js by simp
  have lg: "length (?g i) = ?L" if "i \<in> set js" for i
    using length_take_nd [OF v block_length [OF lx]] that js by simp
  have rl: "ravel (map length jss) p' < ?L"
    by (rule ravel_less [OF p'])
  have rr: "ravel ds (map2 (\<lambda>js q. js ! q) jss p') < ?P"
    by (rule ravel_less [OF picked_valid [OF v p']])
  have "take_nd (js # jss) (d # ds) xs ! ravel (map length (js # jss)) p
        = concat (map ?g js) ! (q * ?L + ravel (map length jss) p')"
    by (simp add: p)
  also have "\<dots> = ?g (js ! q) ! ravel (map length jss) p'"
    by (rule concat_nth_blocks [OF lg q rl])
  also have "\<dots> = take ?P (drop (js ! q * ?P) xs) ! ravel ds (map2 (\<lambda>js q. js ! q) jss p')"
    using "3.IH" [OF jq v block_length [OF lx jd] p'] .
  also have "\<dots> = xs ! (js ! q * ?P + ravel ds (map2 (\<lambda>js q. js ! q) jss p'))"
    by (rule block_nth [OF lx jd rr])
  finally show ?case by (simp add: p)
qed


lemma stride_below:
  assumes "0 < f" and "q < (d + f - 1) div f"
  shows "q * f < (d::nat)"
proof -
  from assms(2) have "Suc q \<le> (d + f - 1) div f" by simp
  then have "Suc q * f \<le> d + f - 1"
    using assms(1) by (simp only: less_eq_div_iff_mult_less_eq)
  then show ?thesis using assms(1) by simp
qed

lemma elements_wf:
  assumes "shape_of c = n # ds" and "wf_array (values_of c)" and "x \<in> set (elements (values_of c))"
  shows "shape x = ds" and "length (data x) = prod_list ds"
proof -
  from assms(1,3) obtain i where i: "i < n" "x = element (values_of c) i"
    by (auto simp: elements_def shape_of_def)
  with element_wf [OF assms(1,2), of i] show "shape x = ds" and "length (data x) = prod_list ds"
    by simp_all
qed

lemma subsample_core:
  assumes sh: "shape_of c = n # ds" and fs: "fs = per_axis fac (length ds)"
    and pos: "\<forall>f\<in>set fs. 0 < f" and len: "length ds \<le> length fs"
  defines "picks \<equiv> map (\<lambda>i. map (\<lambda>q. q * nat (fs ! i)) [0..<nat (roundup (int (ds ! i)) (fs ! i))])
                          [0..<length ds]"
  shows "subsample fac c =
         Inr (Images \<lparr>shape = n # map (\<lambda>i. nat (roundup (int (ds ! i)) (fs ! i))) [0..<length ds],
                      data = concat (map (\<lambda>x. take_nd picks ds (data x)) (elements (values_of c)))\<rparr>
                (mode_of c))"
proof -
  let ?k = "length ds"
  let ?sl = "\<lambda>i. \<lparr>start = 0, stop = ds ! i, step = nat (fs ! i)\<rparr>"
  let ?nd = "map (\<lambda>i. nat (roundup (int (ds ! i)) (fs ! i))) [0..<?k]"
  let ?g = "\<lambda>x::'a ndarray. \<lparr>shape = ?nd, data = take_nd picks ds (data x)\<rparr>"
  have d: "dims c = ds" using sh by (simp add: dims_def)
  have fpos: "0 < fs ! i" if "i < ?k" for i
    using pos len that by simp
  have pk: "map2 slice_indices (map ?sl [0..<?k]) ds = picks"
  proof (rule nth_equalityI)
    show "length (map2 slice_indices (map ?sl [0..<?k]) ds) = length picks"
      by (simp add: picks_def)
  next
    fix i assume "i < length (map2 slice_indices (map ?sl [0..<?k]) ds)"
    then have i: "i < ?k" by simp
    then have "map2 slice_indices (map ?sl [0..<?k]) ds ! i = slice_indices (?sl i) (ds ! i)"
      by simp
    also have "\<dots> = map (\<lambda>q. q * nat (fs ! i)) [0..<(ds ! i + nat (fs ! i) - 1) div nat (fs ! i)]"
      using fpos [OF i] by (simp add: slice_indices_stride)
    also have "\<dots> = picks ! i"
      using i roundup_nat [OF fpos [OF i], of "ds ! i"] by (simp add: picks_def)
    finally show "map2 slice_indices (map ?sl [0..<?k]) ds ! i = picks ! i" .
  qed
  have lp: "map length picks = ?nd"
    by (simp add: picks_def comp_def)
  have el: "np_getitem (map ?sl [0..<?k]) x = Inr (?g x)" if "x \<in> set (elements (values_of c))" for x
  proof -
    from shape_elements [OF that] sh have sx: "shape x = ds"
      by (simp add: shape_of_def)
    show ?thesis
      by (simp add: np_getitem_def sx pk lp)
  qed
  have m: "mapM (np_getitem (map ?sl [0..<?k])) (elements (values_of c)) = Inr (map ?g (elements (values_of c)))"
    by (rule mapM_total) (rule el)
  have "\<not> list_ex (\<lambda>sf. sf \<le> 0) fs"
    using pos by (auto simp: list_ex_iff)
  then have "subsample fac c = map_images (np_getitem (map ?sl [0..<?k])) (Some ?nd) c"
    using len by (simp add: subsample_def d fs [symmetric] Let_def)
  also have "\<dots> = Inr (Images \<lparr>shape = n # ?nd, data = concat (map data (map ?g (elements (values_of c))))\<rparr> (mode_of c))"
    by (rule map_images_Some [OF sh m])
  finally show ?thesis by (simp add: comp_def)
qed


lemma subsample_norm:
  assumes sh: "shape_of c = n # ds" and fs: "fs = per_axis fac (length ds)"
    and pos: "\<forall>f\<in>set fs. 0 < f" and len: "length ds \<le> length fs"
  shows "\<exists>r. subsample fac c = Inr r \<and>
             shape_of r = n # map (\<lambda>i. nat (roundup (int (ds ! i)) (fs ! i))) [0..<length ds] \<and>
             mode_of r = mode_of c \<and>
             (wf_array (values_of c) \<longrightarrow>
              (\<forall>j<n. \<forall>p. list_all2 (<) p (tl (shape_of r)) \<longrightarrow>
                 item (element (values_of r) j) p =
                 item (element (values_of c) j) (map2 (\<lambda>q f. q * nat f) p fs)))"
proof -
  let ?k = "length ds"
  let ?nd = "map (\<lambda>i. nat (roundup (int (ds ! i)) (fs ! i))) [0..<?k]"
  define picks where "picks = map (\<lambda>i. map (\<lambda>q. q * nat (fs ! i)) [0..<nat (roundup (int (ds ! i)) (fs ! i))])
                          [0..<length ds]"
  let ?g = "\<lambda>x::'a ndarray. take_nd picks ds (data x)"
  let ?v = "\<lparr>shape = n # ?nd, data = concat (map ?g (elements (values_of c)))\<rparr>"
  have r: "subsample fac c = Inr (Images ?v (mode_of c))"
    unfolding picks_def by (rule subsample_core [OF sh fs pos len])
  have fpos: "0 < fs ! i" if "i < ?k" for i
    using pos len that by simp
  have lp: "map length picks = ?nd"
    by (simp add: picks_def comp_def)
  have valid: "list_all2 (\<lambda>js d. \<forall>i\<in>set js. i < d) picks ds"
  proof (rule list_all2_all_nthI)
    show "length picks = length ds" by (simp add: picks_def)
  next
    fix i assume "i < length picks"
    then have i: "i < ?k" by (simp add: picks_def)
    have "q * nat (fs ! i) < ds ! i" if "q < nat (roundup (int (ds ! i)) (fs ! i))" for q
      using that fpos [OF i] by (intro stride_below) (simp_all add: roundup_nat)
    then show "\<forall>a\<in>set (picks ! i). a < ds ! i"
      using i by (auto simp: picks_def)
  qed
  have "item (element ?v j) p = item (element (values_of c) j) (map2 (\<lambda>q f. q * nat f) p fs)"
    if wf: "wf_array (values_of c)" and j: "j < n" and p: "list_all2 (<) p ?nd" for j p
  proof -
    let ?x = "element (values_of c) j"
    have lg: "length (?g x) = prod_list ?nd" if "x \<in> set (elements (values_of c))" for x
      using length_take_nd [OF valid elements_wf(2) [OF sh wf that]] by (simp only: lp)
    have p': "list_all2 (<) p (map length picks)" using p by (simp only: lp)
    have lenp: "length p = ?k"
      using list_all2_lengthD [OF p] by simp
    have idx: "map2 (\<lambda>js q. js ! q) picks p = map2 (\<lambda>q f. q * nat f) p fs"
    proof (rule nth_equalityI)
      show "length (map2 (\<lambda>js q. js ! q) picks p) = length (map2 (\<lambda>q f. q * nat f) p fs)"
        using lenp len by (simp add: picks_def)
    next
      fix i assume "i < length (map2 (\<lambda>js q. js ! q) picks p)"
      then have i: "i < ?k" by (simp add: picks_def)
      have "p ! i < ?nd ! i"
        using list_all2_nthD [OF p, of i] i lenp by simp
      then have "p ! i < nat (roundup (int (ds ! i)) (fs ! i))"
        using i by simp
      then show "map2 (\<lambda>js q. js ! q) picks p ! i = map2 (\<lambda>q f. q * nat f) p fs ! i"
        using i lenp len by (simp add: picks_def)
    qed
    have em: "element ?v j = \<lparr>shape = ?nd, data = ?g ?x\<rparr>"
      by (rule element_of_mapped [OF sh j lg])
    have "item (element ?v j) p = ?g ?x ! ravel ?nd p"
      by (simp add: em item_def)
    also have "\<dots> = data ?x ! ravel ds (map2 (\<lambda>js q. js ! q) picks p)"
      using take_nd_nth [OF valid element_wf(2) [OF sh wf j] p'] by (simp only: lp)
    also have "\<dots> = item ?x (map2 (\<lambda>q f. q * nat f) p fs)"
      using element_wf(1) [OF sh wf j] by (simp add: item_def idx)
    finally show ?thesis .
  qed
  with r show ?thesis
    by (simp add: Images_def shape_of_def)
qed


lemma roundup_int_nat:
  assumes "0 < f"
  shows "int (nat (roundup (int d) f)) = \<lceil>real d / real_of_int f\<rceil>"
proof -
  have "0 \<le> real d / real_of_int f" using assms by simp
  then have "0 \<le> \<lceil>real d / real_of_int f\<rceil>" by simp
  then show ?thesis
    using roundup_ceiling [OF assms, of "int d"] by simp
qed

text \<open>
  C5. For a factor whose entries are all positive (a single integer standing for every
  spatial axis, a sequence giving at least one entry per spatial axis), subsample
  succeeds and keeps the count; along every spatial axis \<open>i\<close> the new extent is
  \<open>ceil (dims[i] / factor[i])\<close>; on a well-formed collection the item at the index
  \<open>p\<close> of a result element is the item at the index \<open>p[i] * factor[i]\<close> of the input
  element (index 0 and then every factor-th index); an all-ones factor leaves the dims
  unchanged.
\<close>

theorem subsample_dims:
  assumes "count c = Inr n" and "fs = per_axis fac (length (dims c))"
    and "\<forall>f\<in>set fs. 0 < f" and "length (dims c) \<le> length fs"
  shows "\<exists>r. subsample fac c = Inr r \<and> count r = Inr n \<and>
             length (dims r) = length (dims c) \<and>
             (\<forall>i<length (dims c). int (dims r ! i) = \<lceil>real (dims c ! i) / real_of_int (fs ! i)\<rceil>) \<and>
             (wf_array (values_of c) \<longrightarrow>
              (\<forall>j<n. \<forall>p. list_all2 (<) p (dims r) \<longrightarrow>
                 item (element (values_of r) j) p =
                 item (element (values_of c) j) (map2 (\<lambda>q f. q * nat f) p fs))) \<and>
             ((\<forall>f\<in>set fs. f = 1) \<longrightarrow> dims r = dims c)"
proof -
  from assms(1) obtain ds where sh: "shape_of c = n # ds"
    by (auto simp: count_def split: list.splits)
  then have d: "dims c = ds" by (simp add: dims_def)
  let ?nd = "map (\<lambda>i. nat (roundup (int (ds ! i)) (fs ! i))) [0..<length ds]"
  from subsample_norm [OF sh assms(2) [unfolded d] assms(3) assms(4) [unfolded d]]
  obtain r where r: "subsample fac c = Inr r" "shape_of r = n # ?nd"
    and it: "wf_array (values_of c) \<longrightarrow>
              (\<forall>j<n. \<forall>p. list_all2 (<) p (tl (shape_of r)) \<longrightarrow>
                 item (element (values_of r) j) p =
                 item (element (values_of c) j) (map2 (\<lambda>q f. q * nat f) p fs))"
    by blast
  have dr: "dims r = ?nd" using r(2) by (simp add: dims_def)
  have fpos: "0 < fs ! i" if "i < length ds" for i
    using assms(3,4) that d by simp
  have ceil: "\<forall>i<length (dims c). int (dims r ! i) = \<lceil>real (dims c ! i) / real_of_int (fs ! i)\<rceil>"
    unfolding d dr using roundup_int_nat [OF fpos] by simp
  have ones: "dims r = dims c" if "\<forall>f\<in>set fs. f = 1"
  proof -
    have "fs ! i = 1" if "i < length ds" for i
      using \<open>\<forall>f\<in>set fs. f = 1\<close> assms(4) that d by simp
    then have "?nd = map (\<lambda>i. ds ! i) [0..<length ds]"
      by (simp add: roundup_def)
    then show ?thesis by (simp add: d dr map_nth)
  qed
  have cnt: "count r = Inr n" using r(2) by (simp add: count_def)
  have ln: "length (dims r) = length (dims c)" by (simp add: d dr)
  have it': "wf_array (values_of c) \<longrightarrow>
              (\<forall>j<n. \<forall>p. list_all2 (<) p (dims r) \<longrightarrow>
                 item (element (values_of r) j) p =
                 item (element (values_of c) j) (map2 (\<lambda>q f. q * nat f) p fs))"
    using it by (simp only: dims_def)
  from r(1) cnt ln ceil it' ones show ?thesis
    by blast
qed

text \<open>Factor 2 on dims (3, 5): the dims become (2, 3).\<close>

theorem subsample_dims_witness:
  "count (Images \<lparr>shape = [2, 3, 5], data = map int [0..<30]\<rparr> Local) = Inr 2 \<and>
   per_axis (Single 2) 2 = [2, 2] \<and>
   (\<exists>r. subsample (Single 2) (Images \<lparr>shape = [2, 3, 5], data = map int [0..<30]\<rparr> Local) = Inr r \<and>
        count r = Inr 2 \<and> length (dims r) = 2 \<and> int (dims r ! 0) = 2 \<and> int (dims r ! 1) = 3)"
proof -
  let ?c = "Images \<lparr>shape = [2, 3, 5], data = map int [0..<30]\<rparr> Local"
  have c: "count ?c = Inr 2"
    by (simp add: count_def shape_of_def Images_def)
  have d: "dims ?c = [3, 5]"
    by (simp add: dims_def shape_of_def Images_def)
  have fs: "per_axis (Single 2) (length (dims ?c)) = [2, 2]"
    unfolding d by (simp add: per_axis_def numeral_2_eq_2)
  have p: "\<forall>f\<in>set [2, 2::int]. 0 < f" by simp
  have l: "length (dims ?c) \<le> length [2, 2::int]" by (simp add: d)
  have c1: "\<lceil>real 3 / real_of_int 2\<rceil> = 2" by (simp add: ceiling_eq_iff)
  have c2: "\<lceil>real 5 / real_of_int 2\<rceil> = 3" by (simp add: ceiling_eq_iff)
  from subsample_dims [OF c fs [symmetric] p l]
  obtain r where r: "subsample (Single 2) ?c = Inr r" "count r = Inr 2" "length (dims r) = length (dims ?c)"
    "\<forall>i<length (dims ?c). int (dims r ! i) = \<lceil>real (dims ?c ! i) / real_of_int ([2, 2] ! i)\<rceil>"
    by blast
  from r(4) have i: "int (dims r ! 0) = 2" "int (dims r ! 1) = 3"
    unfolding d using c1 c2 by simp_all
  have ld: "length (dims r) = 2"
    using r(3) unfolding d by simp
  have pa: "per_axis (Single 2) 2 = [2, 2]"
    by (simp add: per_axis_def numeral_2_eq_2)
  from c pa r(1,2) ld i show ?thesis
    by blast
qed

subsection \<open>Filters\<close>

lemma concat_blocks_take:
  "concat (map (\<lambda>i. take P (drop (i * P) xs)) [0..<n]) = take (n * P) xs"
proof (induction n)
  case 0 then show ?case by simp
next
  case (Suc n)
  have "take (n * P) xs @ take P (drop (n * P) xs) = take (n * P + P) xs"
    by (simp add: take_add)
  with Suc show ?case by (simp add: add.commute)
qed

lemma concat_elements:
  assumes "wf_array a" and "shape a = n # ds"
  shows "concat (map data (elements a)) = data a"
proof -
  have "concat (map data (elements a)) =
        concat (map (\<lambda>i. take (prod_list ds) (drop (i * prod_list ds) (data a))) [0..<n])"
    using assms(2) by (simp add: elements_def element_def comp_def Let_def)
  also have "\<dots> = take (n * prod_list ds) (data a)"
    by (rule concat_blocks_take)
  also have "\<dots> = data a"
    using assms by (simp add: wf_array_def)
  finally show ?thesis .
qed

lemma mapM_results:
  "mapM (\<lambda>x. case func x of Inl e \<Rightarrow> Inl e | Inr (x', y) \<Rightarrow> Inr y) xs =
   (case mapM func xs of Inl e \<Rightarrow> Inl e | Inr prs \<Rightarrow> Inr (map snd prs))"
  by (induction xs) (auto split: sum.splits prod.splits)















subsection \<open>sample and the mode of results\<close>

lemmas sample_eval = sample_def listed_random_def two_pixels_def Images_def shape_of_def getitem_def
  element_def elements_def py_int_def constructor_def asarray_def

text \<open>The local arm is the same for every seed; the distributed arm is a function of the seed.\<close>

lemma sample_local_any_seed:
  "mode_of c = Local \<Longrightarrow> sample lib n (Some s) c g = sample lib n (Some s') c g"
  by (simp add: sample_def)

lemma sample_spark_seeded:
  "mode_of c = Spark \<Longrightarrow> fst (sample lib n (Some s) c g) = fst (sample lib n (Some s) c g')"
  by (simp add: sample_def)

text \<open>
  C4 (the code departs from the claim). Two calls of sample(1, seed=7) in a row on the
  same local-mode collection of two images, the global generator about to draw 0.1 and
  then 0.9: the first call returns the first image, the second call the second image.
\<close>

theorem sample_same_seed_differs:
  "sample listed_random 1 (Some 7) (two_pixels Local) [1 / 10, 9 / 10] =
     (Inr (Images \<lparr>shape = [1, 1], data = [10::int]\<rparr> Local), [9 / 10]) \<and>
   sample listed_random 1 (Some 7) (two_pixels Local) [9 / 10] =
     (Inr (Images \<lparr>shape = [1, 1], data = [20::int]\<rparr> Local), []) \<and>
   Images \<lparr>shape = [1, 1], data = [10::int]\<rparr> Local \<noteq> Images \<lparr>shape = [1, 1], data = [20]\<rparr> Local"
  by (simp add: sample_eval)










subsection \<open>localcorr\<close>

lemma map_images_fx_unchanged:
  assumes sh: "shape_of c = n # ds" and wf: "wf_array (values_of c)"
    and tot: "\<And>x. x \<in> set (elements (values_of c)) \<Longrightarrow> f x = Inr (g x)"
  shows "map_images_fx (unchanged f) (Some d) c =
         Inr (c, Images \<lparr>shape = n # d, data = concat (map (\<lambda>x. data (g x)) (elements (values_of c)))\<rparr>
                   (mode_of c))"
proof -
  let ?es = "elements (values_of c)"
  have m: "mapM (unchanged f) ?es = Inr (map (\<lambda>x. (x, g x)) ?es)"
    by (rule mapM_total) (simp add: unchanged_def tot)
  have "mapM (\<lambda>x. case unchanged f x of Inl e \<Rightarrow> Inl e | Inr (x', y) \<Rightarrow> Inr y) ?es = Inr (map g ?es)"
    by (simp add: mapM_results m comp_def)
  from map_images_Some [OF sh this, of d]
  have r: "map_images (\<lambda>x. case unchanged f x of Inl e \<Rightarrow> Inl e | Inr (x', y) \<Rightarrow> Inr y) (Some d) c =
           Inr (Images \<lparr>shape = n # d, data = concat (map (\<lambda>x. data (g x)) ?es)\<rparr> (mode_of c))"
    by (simp add: comp_def)
  have "concat (map (\<lambda>(x', y). data x') (map (\<lambda>x. (x, g x)) ?es)) = data (values_of c)"
    using concat_elements [OF wf] sh by (simp add: shape_of_def comp_def)
  then show ?thesis
    by (simp add: map_images_fx_def r m Images_def)
qed

lemma uniform_filter_odd:
  "uniform_filter FILTERS (Scalar (nb * 2 + 1)) c =
   map_images_fx (unchanged (\<lambda>x. FILTERS Uniform x (expand_size (length (dims c)) (Scalar (nb * 2 + 1)))))
     (Some (dims c)) c"
proof -
  have "nb * 2 + 1 \<noteq> 0" by presburger
  then show ?thesis
    by (simp add: uniform_filter_def image_filter_def Let_def expand_size_def size_at2_def)
qed


lemma series_of_transposed:
  assumes "shape a = n # ds"
  shows "toarray (series_map f \<lparr>series_values = transpose_0_last a, index = ix\<rparr>) =
         \<lparr>shape = ds, data = map (\<lambda>p. f (column a p)) [0..<prod_list ds]\<rparr>"
proof -
  let ?P = "prod_list ds"
  have lc: "length (column a p) = n" for p
    using assms by (simp add: column_def)
  have blk: "take n (drop (p * n) (concat (map (column a) [0..<?P]))) = column a p" if "p < ?P" for p
    using concat_block [of "[0..<?P]" "column a" n p] lc that by simp
  have "map (\<lambda>p. f (take n (drop (p * n) (concat (map (column a) [0..<?P]))))) [0..<?P]
        = map (\<lambda>p. f (column a p)) [0..<?P]"
    by (rule map_cong) (simp_all add: blk)
  then show ?thesis
    using assms by (simp add: toarray_def series_map_def transpose_0_last_def Let_def)
qed


lemma column_combined:
  assumes sh: "shape a = n # ds" and wf: "wf_array a" and p: "p < prod_list ds"
    and bl: "\<And>x. x \<in> set (elements a) \<Longrightarrow> length (data (blur x)) = prod_list ds"
  shows "column \<lparr>shape = (n + n) # ds, data = data a @ concat (map (\<lambda>x. data (blur x)) (elements a))\<rparr> p =
         map (\<lambda>x. data x ! p) (elements a @ map blur (elements a))"
proof (rule nth_equalityI)
  let ?P = "prod_list ds"
  let ?B = "concat (map (\<lambda>x. data (blur x)) (elements a))"
  let ?v = "\<lparr>shape = (n + n) # ds, data = data a @ ?B\<rparr>"
  have es: "elements a = map (element a) [0..<n]"
    using sh by (simp add: elements_def)
  have la: "length (data a) = n * ?P"
    using sh wf by (simp add: wf_array_def)
  show len: "length (column ?v p) = length (map (\<lambda>x. data x ! p) (elements a @ map blur (elements a)))"
    by (simp add: column_def es)
  fix i assume "i < length (column ?v p)"
  then have i: "i < n + n" by (simp add: column_def)
  have c: "column ?v p ! i = (data a @ ?B) ! (i * ?P + p)"
    using i by (simp add: column_def)
  show "column ?v p ! i = map (\<lambda>x. data x ! p) (elements a @ map blur (elements a)) ! i"
  proof (cases "i < n")
    case True
    have "i * ?P + p < i * ?P + ?P" using p by simp
    also have "\<dots> = Suc i * ?P" by simp
    also have "\<dots> \<le> n * ?P" using True by (intro mult_le_mono1) simp
    finally have lt: "i * ?P + p < length (data a)" using la by simp
    have "data (element a i) ! p = data a ! (i * ?P + p)"
      using block_nth [OF la True p] sh by (simp add: element_def Let_def)
    moreover have "map (\<lambda>x. data x ! p) (elements a @ map blur (elements a)) ! i = data (element a i) ! p"
      using True by (simp add: nth_append es)
    moreover have "(data a @ ?B) ! (i * ?P + p) = data a ! (i * ?P + p)"
      using lt by (simp only: nth_append if_True)
    ultimately show ?thesis
      by (simp only: c)
  next
    case False
    define k where "k = i - n"
    have k: "k < n" "i = n + k" using False i by (simp_all add: k_def)
    have "i * ?P + p = length (data a) + (k * ?P + p)"
      using la k by (simp add: algebra_simps)
    then have "(data a @ ?B) ! (i * ?P + p) = ?B ! (k * ?P + p)"
      by (simp only: nth_append_length_plus)
    also have "\<dots> = data (blur (elements a ! k)) ! p"
      by (rule concat_nth_blocks) (use bl k p es in simp_all)
    finally have "(data a @ ?B) ! (i * ?P + p) = data (blur (elements a ! k)) ! p" .
    moreover have "map (\<lambda>x. data x ! p) (elements a @ map blur (elements a)) ! i
                   = data (blur (elements a ! k)) ! p"
      using k by (simp add: nth_append es)
    ultimately show ?thesis
      by (simp only: c)
  qed
qed


lemma mode_Images: "mode_of (Images v m) = m"
  by (simp add: Images_def)

lemma values_Images: "values_of (Images v m) = v"
  by (simp add: Images_def)

text \<open>
  C1. On a well-formed collection of N images, where the uniform filter with window
  \<open>2 * neighborhood + 1\<close> returns for every image \<open>x\<close> an array \<open>blur x\<close> of the
  shape of \<open>x\<close>, localcorr returns what the five steps of the spec produce: the
  blurred images are put behind the N originals, the series of a position is read
  across the 2N images, and the coefficient of its first N and last N values is the
  item of the local result array at that position. A neighborhood that is not an
  integer is a ValueError.
\<close>

theorem localcorr_sequence:
  assumes cnt: "count c = Inr N" and wf: "wf_array (values_of c)"
    and blur: "\<And>x. x \<in> set (elements (values_of c)) \<Longrightarrow>
                 FILTERS Uniform x (expand_size (length (dims c)) (Scalar (2 * nb + 1))) = Inr (blur x) \<and>
                 shape (blur x) = shape x \<and> wf_array (blur x)"
  shows "localcorr FILTERS pearson (PyInt nb) c = Inr (localcorr_spec blur pearson c) \<and>
         localcorr FILTERS pearson (PyFloat y) c = Inl ValueError \<and>
         (\<forall>p<prod_list (dims c).
            data (localcorr_spec blur pearson c) ! p =
            pearson (map (\<lambda>x. data x ! p) (elements (values_of c)))
                    (map (\<lambda>x. data (blur x) ! p) (elements (values_of c))))"
proof (intro conjI)
  let ?a = "values_of c"
  let ?es = "elements ?a"
  from cnt obtain ds where sh: "shape_of c = N # ds"
    by (auto simp: count_def split: list.splits)
  then have d: "dims c = ds" and sa: "shape ?a = N # ds"
    by (simp_all add: dims_def shape_of_def)
  let ?P = "prod_list ds"
  let ?B = "concat (map (\<lambda>x. data (blur x)) ?es)"
  let ?comb = "\<lparr>shape = (N + N) # ds, data = data ?a @ ?B\<rparr>"
  let ?f = "\<lambda>x. pearson (take N x) (drop N x)"
  let ?series = "\<lambda>p. map (\<lambda>x. data x ! p) (?es @ map blur ?es)"
  have les: "length ?es = N"
    using sa by (simp add: elements_def)
  have bl: "length (data (blur x)) = ?P" if "x \<in> set ?es" for x
    using blur [OF that] shape_elements [OF that] sa by (simp add: wf_array_def)
  have tot: "FILTERS Uniform x (expand_size (length (dims c)) (Scalar (nb * 2 + 1))) = Inr (blur x)"
    if "x \<in> set ?es" for x
    using blur [OF that] by (simp add: mult.commute)
  have uf: "uniform_filter FILTERS (Scalar (nb * 2 + 1)) c =
            Inr (c, Images \<lparr>shape = N # ds, data = ?B\<rparr> (mode_of c))"
    unfolding uniform_filter_odd d [symmetric]
    using map_images_fx_unchanged [OF sh wf tot, where d = "dims c"] by (simp add: d)
  have cc: "concatenate0 ?a \<lparr>shape = N # ds, data = ?B\<rparr> = Inr ?comb"
    using sa by (simp add: concatenate0_def)
  have ts: "toseries (Images ?comb m) = Inr \<lparr>series_values = transpose_0_last ?comb, index = [0..<N + N]\<rparr>" for m
    by (simp add: toseries_def shape_of_def Images_def)
  have run: "localcorr FILTERS pearson (PyInt nb) c =
             Inr \<lparr>shape = ds, data = map (\<lambda>p. ?f (column ?comb p)) [0..<?P]\<rparr>"
    using series_of_transposed [of ?comb "N + N" ds ?f "[0..<N + N]"]
    by (cases "mode_of c")
      (simp_all add: localcorr_def sh uf cc ts fromarray_def fromrdd_def mode_Images values_Images)
  have col: "column ?comb p = ?series p" if "p < ?P" for p
    by (rule column_combined [OF sa wf that bl])
  have "map (\<lambda>p. ?f (column ?comb p)) [0..<?P] = map (\<lambda>p. ?f (?series p)) [0..<?P]"
    by (rule map_cong) (simp_all add: col)
  then show "localcorr FILTERS pearson (PyInt nb) c = Inr (localcorr_spec blur pearson c)"
    unfolding run by (simp add: localcorr_spec_def Let_def d les)
  show "localcorr FILTERS pearson (PyFloat y) c = Inl ValueError"
    by (simp add: localcorr_def)
  show "\<forall>p<prod_list (dims c).
            data (localcorr_spec blur pearson c) ! p =
            pearson (map (\<lambda>x. data x ! p) ?es) (map (\<lambda>x. data (blur x) ! p) ?es)"
    by (simp add: localcorr_spec_def Let_def les comp_def)
qed


text \<open>Two volumes in distributed mode, with stand-ins for the filter and the coefficient.\<close>

theorem localcorr_sequence_witness:
  "count (two_volumes Spark) = Inr 2 \<and> wf_array (values_of (two_volumes Spark)) \<and>
   localcorr flatten_filter (\<lambda>xs ys. sum_list (map2 (*) xs ys)) (PyInt 1) (two_volumes Spark) =
     Inr \<lparr>shape = [1, 2, 2], data = [26, 32, 38, 44]\<rparr>"
proof -
  let ?c = "two_volumes Spark"
  let ?blur = "\<lambda>x::int ndarray. x\<lparr>data := map (\<lambda>v. hd (data x)) (data x)\<rparr>"
  let ?dot = "\<lambda>xs ys::int list. sum_list (map2 (*) xs ys)"
  have cnt: "count ?c = Inr 2"
    by (simp add: count_def shape_of_def two_volumes_def Images_def)
  have wf: "wf_array (values_of ?c)"
    by (simp add: wf_array_def two_volumes_def Images_def)
  have es: "elements (values_of ?c) =
            [\<lparr>shape = [1, 2, 2], data = [1, 2, 3, 4]\<rparr>, \<lparr>shape = [1, 2, 2], data = [5, 6, 7, 8]\<rparr>]"
    by code_simp
  have b: "flatten_filter Uniform x (expand_size (length (dims ?c)) (Scalar (2 * 1 + 1))) = Inr (?blur x) \<and>
           shape (?blur x) = shape x \<and> wf_array (?blur x)"
    if "x \<in> set (elements (values_of ?c))" for x
    using that unfolding es by (auto simp: flatten_filter_def wf_array_def)
  have sp: "localcorr_spec ?blur ?dot ?c = \<lparr>shape = [1, 2, 2], data = [26, 32, 38, 44]\<rparr>"
    by code_simp
  from localcorr_sequence [where c = ?c and N = 2 and FILTERS = flatten_filter and nb = 1
      and blur = ?blur and pearson = ?dot, OF cnt wf b]
  have "localcorr flatten_filter ?dot (PyInt 1) ?c = Inr (localcorr_spec ?blur ?dot ?c)"
    by blast
  with cnt wf sp show ?thesis by simp
qed

end
